theory Spec2Isabelle
  imports Main "HOL-Library.Product_Lexorder" "HOL-Library.AList"
begin

section \<open>The hash equivalence server: table, requests and handlers\<close>

text \<open>
  The embedding follows \<^verbatim>\<open>hashserver.py\<close>. The table \<^verbatim>\<open>tasks_v2\<close> is a list of rows in
  rowid order, the shared connection is a record holding that list, and each handler is a
  function from the connection to a result and the connection afterwards. An exception of
  the source is a value of \<open>error\<close>.

  Values of the request are strings, as the table's TEXT columns are. A
  \<^verbatim>\<open>datetime\<close> is an integer count of microseconds: the source stores it as ISO text of
  fixed width, whose order as text is the order in time.
\<close>

type_synonym datetime = int

record row =
  row_id :: nat
  "method" :: string
  outhash :: string
  taskhash :: string
  unihash :: string
  created :: datetime
  owner :: "string option"
  PN :: "string option"
  PV :: "string option"
  PR :: "string option"
  task :: "string option"
  outhash_siginfo :: "string option"

text \<open>The statements a handler sends to the connection, kept in the order sent.\<close>

datatype stmt = Select | Insert | Commit

record db =
  rows :: "row list"
  seq :: nat
  trace :: "stmt list"

datatype error = KeyError string | IntegrityError | OperationalError | Unsupported

text \<open>The dictionary \<^verbatim>\<open>d\<close> that both handlers answer with.\<close>

record equiv =
  d_taskhash :: string
  d_method :: string
  d_unihash :: string

type_synonym request = "string \<rightharpoonup> string"

definition empty_db :: db where
  "empty_db = \<lparr>rows = [], seq = 0, trace = []\<rparr>"

subsection \<open>The statements\<close>

text \<open>
  \<^verbatim>\<open>SELECT ... WHERE wh ORDER BY key LIMIT 1\<close> followed by \<^verbatim>\<open>fetchone\<close>: the rows that
  satisfy the condition, sorted by the key, and the first of them if there is one. SQL leaves
  the order of rows with equal keys open; here the sort is stable, so among equal keys the
  row of least rowid comes first.
\<close>

definition fetchone :: "'a list \<Rightarrow> 'a option" where
  "fetchone xs = (case xs of [] \<Rightarrow> None | x # _ \<Rightarrow> Some x)"

definition db_select :: "(row \<Rightarrow> bool) \<Rightarrow> (row \<Rightarrow> 'k::linorder) \<Rightarrow> db \<Rightarrow> row option \<times> db" where
  "db_select wh key c =
     (fetchone (sort_key key (filter wh (rows c))), c\<lparr>trace := trace c @ [Select]\<rparr>)"

text \<open>
  The values bound to a statement: a text, or a \<^verbatim>\<open>datetime\<close>. The parameters of the INSERT
  are the dictionary \<^verbatim>\<open>insert_data\<close>, an association list from column names to values in
  the order the keys were set.
\<close>

datatype sqlval = SqlText string | SqlTime datetime

type_synonym params = "(string \<times> sqlval) list"

definition table_columns :: "string list" where
  "table_columns = [''id'', ''method'', ''outhash'', ''taskhash'', ''unihash'', ''created'',
     ''owner'', ''PN'', ''PV'', ''PR'', ''task'', ''outhash_siginfo'']"

definition bound_text :: "params \<Rightarrow> string \<Rightarrow> string option" where
  "bound_text ps k = (case map_of ps k of Some (SqlText s) \<Rightarrow> Some s | _ \<Rightarrow> None)"

fun is_time :: "sqlval \<Rightarrow> bool" where
  "is_time (SqlTime _) = True"
| "is_time (SqlText _) = False"

definition same_triple :: "string \<Rightarrow> string \<Rightarrow> string \<Rightarrow> row \<Rightarrow> bool" where
  "same_triple m h t r \<longleftrightarrow> method r = m \<and> outhash r = h \<and> taskhash r = t"

text \<open>
  \<^verbatim>\<open>INSERT INTO tasks_v2 (...) VALUES (...)\<close>, whose column list is every key of the
  parameters. A key that is not a column of the table fails the statement with
  OperationalError. The four columns declared NOT NULL must be bound, the triple under
  \<^verbatim>\<open>UNIQUE(method, outhash, taskhash)\<close> must be new (IntegrityError otherwise), a column
  that is not bound is NULL, and \<^verbatim>\<open>id\<close> is the next value of the AUTOINCREMENT sequence.
  A statement that fails changes neither the table nor the sequence.

  The rows of the model hold a time in \<^verbatim>\<open>created\<close>, texts in the other columns and the
  sequence's value in \<^verbatim>\<open>id\<close>. A statement that binds \<^verbatim>\<open>id\<close>, binds a time to a text
  column, or does not bind a time to \<^verbatim>\<open>created\<close> would store what such rows cannot hold:
  it is answered with \<open>Unsupported\<close>, which is no exception of the source.
  \<open>post_equivalent_supported\<close> below shows that the handler never sends such a statement.
\<close>

definition db_insert :: "params \<Rightarrow> db \<Rightarrow> (error + unit) \<times> db" where
  "db_insert ps c =
     (let c1 = c\<lparr>trace := trace c @ [Insert]\<rparr> in
      if list_ex (\<lambda>k. k \<notin> set table_columns) (map fst ps) then (Inl OperationalError, c1)
      else if map_of ps ''id'' \<noteq> None \<or> list_ex (\<lambda>(k, v). k \<noteq> ''created'' \<and> is_time v) ps
        then (Inl Unsupported, c1)
      else
        (case map_of ps ''created'' of
           Some (SqlTime stamp) \<Rightarrow>
             (case (bound_text ps ''method'', bound_text ps ''outhash'',
                    bound_text ps ''taskhash'', bound_text ps ''unihash'') of
                (Some m, Some h, Some t, Some u) \<Rightarrow>
                  if list_ex (same_triple m h t) (rows c) then (Inl IntegrityError, c1)
                  else (Inr (),
                        c1\<lparr>rows := rows c @
                           [\<lparr>row_id = Suc (seq c), method = m, outhash = h, taskhash = t,
                             unihash = u, created = stamp,
                             owner = bound_text ps ''owner'', PN = bound_text ps ''PN'',
                             PV = bound_text ps ''PV'', PR = bound_text ps ''PR'',
                             task = bound_text ps ''task'',
                             outhash_siginfo = bound_text ps ''outhash_siginfo''\<rparr>],
                           seq := Suc (seq c)\<rparr>)
              | _ \<Rightarrow> (Inl IntegrityError, c1))
         | _ \<Rightarrow> (Inl Unsupported, c1)))"

definition db_commit :: "db \<Rightarrow> db" where
  "db_commit c = c\<lparr>trace := trace c @ [Commit]\<rparr>"

subsection \<open>The handlers\<close>

definition project :: "row \<Rightarrow> equiv" where
  "project r = \<lparr>d_taskhash = taskhash r, d_method = method r, d_unihash = unihash r\<rparr>"

text \<open>
  \<^verbatim>\<open>get_equivalent\<close>: the two query parameters are read first (a missing one raises
  KeyError), then the oldest row with that method and taskhash is selected. The answer is
  the projection of the row, or \<^verbatim>\<open>None\<close> (JSON null) when there is no row.
\<close>

definition get_equivalent :: "request \<Rightarrow> db \<Rightarrow> (error + equiv option) \<times> db" where
  "get_equivalent query c =
     (case query ''method'' of
        None \<Rightarrow> (Inl (KeyError ''method''), c)
      | Some m \<Rightarrow>
     (case query ''taskhash'' of
        None \<Rightarrow> (Inl (KeyError ''taskhash''), c)
      | Some t \<Rightarrow>
          (let (row, c1) = db_select (\<lambda>r. method r = m \<and> taskhash r = t) created c
           in (Inr (map_option project row), c1))))"

text \<open>
  \<^verbatim>\<open>insert_data\<close>: the dictionary with the five keys of lines 71 to 77, then the loop over
  the six optional keys, which sets a key when the request has it. Setting a key of a
  dictionary is \<open>AList.update\<close>.
\<close>

definition optional_keys :: "string list" where
  "optional_keys = [''owner'', ''PN'', ''PV'', ''PR'', ''task'', ''outhash_siginfo'']"

definition copy_optional :: "request \<Rightarrow> params \<Rightarrow> params" where
  "copy_optional data ins =
     fold (\<lambda>k acc. case data k of None \<Rightarrow> acc | Some v \<Rightarrow> AList.update k (SqlText v) acc)
       optional_keys ins"

definition insert_data ::
  "datetime \<Rightarrow> request \<Rightarrow> string \<Rightarrow> string \<Rightarrow> string \<Rightarrow> string \<Rightarrow> params" where
  "insert_data now data m h t u =
     copy_optional data
       [(''method'', SqlText m), (''outhash'', SqlText h), (''taskhash'', SqlText t),
        (''unihash'', SqlText u), (''created'', SqlTime now)]"

text \<open>
  The sort key of the candidate query:
  \<^verbatim>\<open>ORDER BY CASE WHEN taskhash=:taskhash THEN 1 ELSE 2 END, created ASC\<close>.
\<close>

definition candidate_key :: "string \<Rightarrow> row \<Rightarrow> nat \<times> datetime" where
  "candidate_key t r = (if taskhash r = t then 1 else 2, created r)"

text \<open>
  \<^verbatim>\<open>post_equivalent\<close>. The parameters of the SELECT are built first, so a request without
  \<^verbatim>\<open>method\<close>, \<^verbatim>\<open>outhash\<close> or \<^verbatim>\<open>taskhash\<close> raises KeyError before any statement is
  sent; \<^verbatim>\<open>unihash\<close> is read only on the inserting branch (\<open>add_entry\<close>, entered
  when no row was found or the row's taskhash is not the request's), after the SELECT. The handler
  awaits between the SELECT and the INSERT, and the connection is shared by all requests:
  \<open>others\<close> is what the other requests do to the connection in that gap. \<open>now\<close> is the
  reading of \<^verbatim>\<open>datetime.now()\<close>.
\<close>

definition add_entry ::
  "datetime \<Rightarrow> request \<Rightarrow> string \<Rightarrow> string \<Rightarrow> string \<Rightarrow> row option \<Rightarrow> db \<Rightarrow>
     (error + equiv) \<times> db" where
  "add_entry now data m h t row c =
     (case data ''unihash'' of
        None \<Rightarrow> (Inl (KeyError ''unihash''), c)
      | Some u0 \<Rightarrow>
          (let u = (case row of None \<Rightarrow> u0 | Some r \<Rightarrow> unihash r)
           in (case db_insert (insert_data now data m h t u) c of
                 (Inl e, c1) \<Rightarrow> (Inl e, c1)
               | (Inr _, c1) \<Rightarrow>
                   (Inr \<lparr>d_taskhash = t, d_method = m, d_unihash = u\<rparr>, db_commit c1))))"

definition post_equivalent_with ::
  "(db \<Rightarrow> db) \<Rightarrow> datetime \<Rightarrow> request \<Rightarrow> db \<Rightarrow> (error + equiv) \<times> db" where
  "post_equivalent_with others now data c =
     (case data ''method'' of
        None \<Rightarrow> (Inl (KeyError ''method''), c)
      | Some m \<Rightarrow>
     (case data ''outhash'' of
        None \<Rightarrow> (Inl (KeyError ''outhash''), c)
      | Some h \<Rightarrow>
     (case data ''taskhash'' of
        None \<Rightarrow> (Inl (KeyError ''taskhash''), c)
      | Some t \<Rightarrow>
          (let (row, c1) =
                 db_select (\<lambda>r. method r = m \<and> outhash r = h) (candidate_key t) c;
               c2 = others c1
           in (case row of
                 None \<Rightarrow> add_entry now data m h t None c2
               | Some r \<Rightarrow>
                   if taskhash r \<noteq> t then add_entry now data m h t (Some r) c2
                   else (Inr (project r), c2))))))"

text \<open>A request served with no other request in between.\<close>

definition post_equivalent :: "datetime \<Rightarrow> request \<Rightarrow> db \<Rightarrow> (error + equiv) \<times> db" where
  "post_equivalent = post_equivalent_with (\<lambda>c. c)"

subsection \<open>Serving requests one after another\<close>

text \<open>
  The application routes GET to \<^verbatim>\<open>get_equivalent\<close> and POST to \<^verbatim>\<open>post_equivalent\<close> on
  one connection. \<open>run\<close> serves a list of requests in order, each to completion, and gives
  the connection afterwards; the states \<open>run calls empty_db\<close> are those reachable from the
  table that \<^verbatim>\<open>setup_database\<close> creates.
\<close>

datatype call = Post datetime request | Get request

fun serve :: "call \<Rightarrow> db \<Rightarrow> db" where
  "serve (Post now data) c = snd (post_equivalent now data c)"
| "serve (Get query) c = snd (get_equivalent query c)"

definition run :: "call list \<Rightarrow> db \<Rightarrow> db" where
  "run calls c = fold serve calls c"

subsection \<open>Properties of the table\<close>

text \<open>At most one row for each (method, outhash, taskhash).\<close>

definition triple_of :: "row \<Rightarrow> string \<times> string \<times> string" where
  "triple_of r = (method r, outhash r, taskhash r)"

definition unique_triples :: "row list \<Rightarrow> bool" where
  "unique_triples rs \<longleftrightarrow> distinct (map triple_of rs)"

text \<open>The rows of one (method, outhash) and the earliest created among them.\<close>

definition in_class :: "string \<Rightarrow> string \<Rightarrow> row \<Rightarrow> bool" where
  "in_class m h r \<longleftrightarrow> method r = m \<and> outhash r = h"

definition oldest :: "string \<Rightarrow> string \<Rightarrow> row list \<Rightarrow> row option" where
  "oldest m h rs = fetchone (sort_key created (filter (in_class m h) rs))"

text \<open>All rows of one (method, outhash) carry one unihash.\<close>

definition converged :: "row list \<Rightarrow> bool" where
  "converged rs \<longleftrightarrow>
     (\<forall>r \<in> set rs. \<forall>r' \<in> set rs.
        method r = method r' \<and> outhash r = outhash r' \<longrightarrow> unihash r = unihash r')"

text \<open>Every row carries the unihash of the earliest created row of its (method, outhash).\<close>

definition canonical :: "row list \<Rightarrow> bool" where
  "canonical rs \<longleftrightarrow>
     (\<forall>r \<in> set rs.
        map_option unihash (oldest (method r) (outhash r) rs) = Some (unihash r))"

subsection \<open>Names for the parts of a request's effect\<close>

text \<open>
  The row that the candidate query of \<^verbatim>\<open>post_equivalent\<close> fetches, the unihash that the
  inserting branch settles on (the row's when a row was fetched, the request's otherwise),
  and the row that its INSERT appends.
\<close>

definition candidate :: "string \<Rightarrow> string \<Rightarrow> string \<Rightarrow> row list \<Rightarrow> row option" where
  "candidate m h t rs = fetchone (sort_key (candidate_key t) (filter (in_class m h) rs))"

definition chosen :: "request \<Rightarrow> row option \<Rightarrow> string option" where
  "chosen data row = (case row of None \<Rightarrow> data ''unihash'' | Some r \<Rightarrow> Some (unihash r))"

definition new_row :: "datetime \<Rightarrow> request \<Rightarrow> string \<Rightarrow> string \<Rightarrow> string \<Rightarrow> string \<Rightarrow> db \<Rightarrow> row" where
  "new_row now data m h t u c =
     \<lparr>row_id = Suc (seq c), method = m, outhash = h, taskhash = t, unihash = u,
      created = now, owner = data ''owner'', PN = data ''PN'', PV = data ''PV'',
      PR = data ''PR'', task = data ''task'', outhash_siginfo = data ''outhash_siginfo''\<rparr>"

subsection \<open>Requests with exactly the required fields\<close>

text \<open>
  The body of a write request that carries the four required fields and nothing else, and
  the query string of a read request.
\<close>

definition write_request :: "string \<Rightarrow> string \<Rightarrow> string \<Rightarrow> string \<Rightarrow> request" where
  "write_request m h t u =
     Map.empty(''method'' \<mapsto> m, ''outhash'' \<mapsto> h, ''taskhash'' \<mapsto> t, ''unihash'' \<mapsto> u)"

definition read_query :: "string \<Rightarrow> string \<Rightarrow> request" where
  "read_query m t = Map.empty(''method'' \<mapsto> m, ''taskhash'' \<mapsto> t)"

section \<open>The statements and the candidate query\<close>

lemma fetchone_None: "fetchone xs = None \<longleftrightarrow> xs = []"
  by (simp add: fetchone_def split: list.splits)

lemma fetchone_sort_None:
  "fetchone (sort_key k (filter p xs)) = None \<longleftrightarrow> (\<forall>x \<in> set xs. \<not> p x)"
  by (metis fetchone_None set_sort set_empty filter_empty_conv)

lemma fetchone_sort_Some:
  assumes "fetchone (sort_key k (filter p xs)) = Some r"
  shows "r \<in> set xs \<and> p r \<and> (\<forall>x \<in> set xs. p x \<longrightarrow> k r \<le> k x)"
proof -
  from assms obtain rest where eq: "sort_key k (filter p xs) = r # rest"
    by (auto simp: fetchone_def split: list.splits)
  have "set (sort_key k (filter p xs)) = {x \<in> set xs. p x}" by simp
  with eq have mem: "r \<in> set xs \<and> p r" and rest: "\<forall>x \<in> set xs. p x \<longrightarrow> x = r \<or> x \<in> set rest"
    by (metis (mono_tags, lifting) list.set_intros(1) mem_Collect_eq, metis (mono_tags, lifting) mem_Collect_eq set_ConsD)
  have "sorted (map k (sort_key k (filter p xs)))" by (rule sorted_sort_key)
  with eq have "\<forall>x \<in> set rest. k r \<le> k x" by simp
  with mem rest show ?thesis by auto
qed

lemma update_mem:
  "p \<in> set (AList.update k v al) \<Longrightarrow> p = (k, v) \<or> p \<in> set al"
  by (induction al) (auto split: if_splits)

lemma copy_fold_map_of:
  "map_of (fold (\<lambda>k acc. case data k of None \<Rightarrow> acc | Some v \<Rightarrow> AList.update k (SqlText v) acc)
      ks ins) x =
     (if x \<in> set ks then (case data x of None \<Rightarrow> map_of ins x | Some v \<Rightarrow> Some (SqlText v))
      else map_of ins x)"
  by (induction ks arbitrary: ins) (auto simp: update_conv' split: option.splits)

lemma copy_fold_mem:
  "p \<in> set (fold (\<lambda>k acc. case data k of None \<Rightarrow> acc | Some v \<Rightarrow> AList.update k (SqlText v) acc)
      ks ins) \<Longrightarrow>
     p \<in> set ins \<or> (fst p \<in> set ks \<and> (\<exists>v. snd p = SqlText v))"
proof (induction ks arbitrary: ins)
  case Nil
  then show ?case by simp
next
  case (Cons k ks)
  show ?case
  proof (cases "data k")
    case None
    with Cons.prems Cons.IH [of ins] show ?thesis by auto
  next
    case (Some v)
    with Cons.prems Cons.IH [of "AList.update k (SqlText v) ins"]
    have "p \<in> set (AList.update k (SqlText v) ins) \<or> (fst p \<in> set ks \<and> (\<exists>v. snd p = SqlText v))"
      by simp
    then show ?thesis using update_mem [of p k "SqlText v" ins] by auto
  qed
qed

lemma copy_optional_map_of:
  "map_of (copy_optional data ins) x =
     (if x \<in> set optional_keys
      then (case data x of None \<Rightarrow> map_of ins x | Some v \<Rightarrow> Some (SqlText v))
      else map_of ins x)"
  unfolding copy_optional_def by (rule copy_fold_map_of)

lemma copy_fold_keys:
  "fst ` set (fold (\<lambda>k acc. case data k of None \<Rightarrow> acc | Some v \<Rightarrow> AList.update k (SqlText v) acc)
      ks ins) = fst ` set ins \<union> {k \<in> set ks. data k \<noteq> None}"
  by (induction ks arbitrary: ins) (auto simp: dom_update split: option.splits)

lemma copy_optional_mem:
  "p \<in> set (copy_optional data ins) \<Longrightarrow>
     p \<in> set ins \<or> (fst p \<in> set optional_keys \<and> (\<exists>v. snd p = SqlText v))"
  unfolding copy_optional_def by (rule copy_fold_mem)

lemma insort_key_cong_order:
  "\<forall>y \<in> set ys. (k x \<le> k y \<longleftrightarrow> k' x \<le> k' y) \<Longrightarrow> insort_key k x ys = insort_key k' x ys"
  by (induction ys) auto

lemma sort_key_cong_order:
  "\<forall>x \<in> set xs. \<forall>y \<in> set xs. (k x \<le> k y \<longleftrightarrow> k' x \<le> k' y) \<Longrightarrow>
     sort_key k xs = sort_key k' xs"
proof (induction xs)
  case Nil
  then show ?case by simp
next
  case (Cons x xs)
  then have "sort_key k xs = sort_key k' xs" by simp
  moreover from Cons.prems
  have "insort_key k x (sort_key k' xs) = insort_key k' x (sort_key k' xs)"
    by (intro insort_key_cong_order) simp
  ultimately show ?case by simp
qed

lemma in_class_fun: "(\<lambda>r. method r = m \<and> outhash r = h) = in_class m h"
  by (rule ext) (simp add: in_class_def)

lemma candidate_None: "candidate m h t rs = None \<longleftrightarrow> \<not> list_ex (in_class m h) rs"
  by (simp add: candidate_def fetchone_sort_None list_ex_iff)

lemma candidate_mem: "candidate m h t rs = Some r \<Longrightarrow> r \<in> set rs \<and> in_class m h r"
  unfolding candidate_def by (drule fetchone_sort_Some) simp

lemma candidate_exact:
  assumes "candidate m h t rs = Some r"
  shows "taskhash r = t \<longleftrightarrow> list_ex (same_triple m h t) rs"
proof
  assume "taskhash r = t"
  with candidate_mem [OF assms] show "list_ex (same_triple m h t) rs"
    by (auto simp: list_ex_iff same_triple_def in_class_def)
next
  assume "list_ex (same_triple m h t) rs"
  then obtain x where x: "x \<in> set rs" "in_class m h x" "taskhash x = t"
    by (auto simp: list_ex_iff same_triple_def in_class_def)
  have "\<forall>y \<in> set rs. in_class m h y \<longrightarrow> candidate_key t r \<le> candidate_key t y"
    using fetchone_sort_Some [OF assms [unfolded candidate_def]] by simp
  with x have "candidate_key t r \<le> candidate_key t x" by simp
  with x(3) show "taskhash r = t"
    by (simp add: candidate_key_def split: if_splits)
qed

lemma candidate_oldest:
  assumes "\<not> list_ex (same_triple m h t) rs"
  shows "candidate m h t rs = oldest m h rs"
proof -
  have "\<forall>x \<in> set (filter (in_class m h) rs). taskhash x \<noteq> t"
    using assms by (auto simp: list_ex_iff same_triple_def in_class_def)
  then have "sort_key (candidate_key t) (filter (in_class m h) rs) =
             sort_key created (filter (in_class m h) rs)"
    by (intro sort_key_cong_order) (simp add: candidate_key_def)
  then show ?thesis by (simp add: candidate_def oldest_def)
qed

lemma oldest_None: "oldest m h rs = None \<longleftrightarrow> \<not> list_ex (in_class m h) rs"
  by (simp add: oldest_def fetchone_sort_None list_ex_iff)

lemma oldest_Some:
  "oldest m h rs = Some e \<Longrightarrow>
     e \<in> set rs \<and> in_class m h e \<and> (\<forall>x \<in> set rs. in_class m h x \<longrightarrow> created e \<le> created x)"
  unfolding oldest_def by (rule fetchone_sort_Some)

lemma insert_data_map_of:
  "map_of (insert_data now data m h t u) ''method'' = Some (SqlText m)"
  "map_of (insert_data now data m h t u) ''outhash'' = Some (SqlText h)"
  "map_of (insert_data now data m h t u) ''taskhash'' = Some (SqlText t)"
  "map_of (insert_data now data m h t u) ''unihash'' = Some (SqlText u)"
  "map_of (insert_data now data m h t u) ''created'' = Some (SqlTime now)"
  "map_of (insert_data now data m h t u) ''id'' = None"
  by (simp_all add: insert_data_def copy_optional_map_of optional_keys_def)

lemma insert_data_required:
  "bound_text (insert_data now data m h t u) ''method'' = Some m"
  "bound_text (insert_data now data m h t u) ''outhash'' = Some h"
  "bound_text (insert_data now data m h t u) ''taskhash'' = Some t"
  "bound_text (insert_data now data m h t u) ''unihash'' = Some u"
  by (simp_all add: bound_text_def insert_data_map_of)

lemma insert_data_optional:
  "k \<in> set optional_keys \<Longrightarrow> bound_text (insert_data now data m h t u) k = data k"
  by (auto simp add: bound_text_def insert_data_def copy_optional_map_of optional_keys_def
      split: option.splits)

lemma insert_data_keys:
  "fst ` set (insert_data now data m h t u) =
     {''method'', ''outhash'', ''taskhash'', ''unihash'', ''created''} \<union>
     {k \<in> set optional_keys. data k \<noteq> None}"
  unfolding insert_data_def copy_optional_def copy_fold_keys by auto

lemma insert_data_columns:
  "\<not> list_ex (\<lambda>k. k \<notin> set table_columns) (map fst (insert_data now data m h t u))"
proof -
  have "fst p \<in> set table_columns" if "p \<in> set (insert_data now data m h t u)" for p
    using copy_optional_mem [OF that [unfolded insert_data_def]]
    by (auto simp: table_columns_def optional_keys_def)
  then show ?thesis by (auto simp: list_ex_iff)
qed

lemma insert_data_times:
  "\<not> list_ex (\<lambda>(k, v). k \<noteq> ''created'' \<and> is_time v) (insert_data now data m h t u)"
proof -
  have "\<not> (fst p \<noteq> ''created'' \<and> is_time (snd p))"
    if "p \<in> set (insert_data now data m h t u)" for p
    using copy_optional_mem [OF that [unfolded insert_data_def]] by auto
  then show ?thesis unfolding list_ex_iff by (simp add: split_beta)
qed

lemma db_insert_insert_data:
  "db_insert (insert_data now data m h t u) c =
     (if list_ex (same_triple m h t) (rows c)
      then (Inl IntegrityError, c\<lparr>trace := trace c @ [Insert]\<rparr>)
      else (Inr (),
            c\<lparr>rows := rows c @
               [\<lparr>row_id = Suc (seq c), method = m, outhash = h, taskhash = t, unihash = u,
                 created = now, owner = data ''owner'', PN = data ''PN'', PV = data ''PV'',
                 PR = data ''PR'', task = data ''task'',
                 outhash_siginfo = data ''outhash_siginfo''\<rparr>],
               seq := Suc (seq c), trace := trace c @ [Insert]\<rparr>))"
proof -
  have opt: "bound_text (insert_data now data m h t u) ''owner'' = data ''owner''"
    "bound_text (insert_data now data m h t u) ''PN'' = data ''PN''"
    "bound_text (insert_data now data m h t u) ''PV'' = data ''PV''"
    "bound_text (insert_data now data m h t u) ''PR'' = data ''PR''"
    "bound_text (insert_data now data m h t u) ''task'' = data ''task''"
    "bound_text (insert_data now data m h t u) ''outhash_siginfo'' = data ''outhash_siginfo''"
    by (simp_all add: insert_data_optional optional_keys_def)
  show ?thesis
    by (simp add: db_insert_def Let_def insert_data_columns insert_data_times
        insert_data_map_of insert_data_required opt)
qed

lemma add_entry_KeyError:
  "data ''unihash'' = None \<Longrightarrow> add_entry now data m h t row c = (Inl (KeyError ''unihash''), c)"
  by (simp add: add_entry_def)

lemma add_entry_new:
  assumes "chosen data row = Some u" "data ''unihash'' \<noteq> None" "\<not> list_ex (same_triple m h t) (rows c)"
  shows "add_entry now data m h t row c =
     (Inr \<lparr>d_taskhash = t, d_method = m, d_unihash = u\<rparr>,
      c\<lparr>rows := rows c @ [new_row now data m h t u c], seq := Suc (seq c),
        trace := trace c @ [Insert, Commit]\<rparr>)"
  using assms
  by (auto simp add: add_entry_def chosen_def db_insert_insert_data db_commit_def new_row_def
      Let_def split: option.splits)

lemma add_entry_duplicate:
  assumes "data ''unihash'' \<noteq> None" "list_ex (same_triple m h t) (rows c)"
  shows "add_entry now data m h t row c = (Inl IntegrityError, c\<lparr>trace := trace c @ [Insert]\<rparr>)"
  using assms
  by (auto simp add: add_entry_def db_insert_insert_data Let_def split: option.splits)

lemma post_equivalent_with_unfold:
  assumes "data ''method'' = Some m" "data ''outhash'' = Some h" "data ''taskhash'' = Some t"
  shows "post_equivalent_with others now data c =
     (let c2 = others (c\<lparr>trace := trace c @ [Select]\<rparr>) in
      case candidate m h t (rows c) of
        None \<Rightarrow> add_entry now data m h t None c2
      | Some r \<Rightarrow> if taskhash r \<noteq> t then add_entry now data m h t (Some r) c2
                  else (Inr (project r), c2))"
  using assms
  by (simp add: post_equivalent_with_def db_select_def candidate_def in_class_fun Let_def)

section \<open>The cases of a write request\<close>

lemma post_equivalent_unfold:
  assumes "data ''method'' = Some m" "data ''outhash'' = Some h" "data ''taskhash'' = Some t"
  shows "post_equivalent now data c =
     (case candidate m h t (rows c) of
        None \<Rightarrow> add_entry now data m h t None (c\<lparr>trace := trace c @ [Select]\<rparr>)
      | Some r \<Rightarrow> if taskhash r \<noteq> t
                  then add_entry now data m h t (Some r) (c\<lparr>trace := trace c @ [Select]\<rparr>)
                  else (Inr (project r), c\<lparr>trace := trace c @ [Select]\<rparr>))"
  by (simp add: post_equivalent_def post_equivalent_with_unfold [OF assms] Let_def)

lemma post_missing_key:
  assumes "data ''method'' = None \<or> data ''outhash'' = None \<or> data ''taskhash'' = None"
  shows "\<exists>k. post_equivalent now data c = (Inl (KeyError k), c)"
  using assms
  by (auto simp add: post_equivalent_def post_equivalent_with_def split: option.splits)

lemma post_case_A:
  assumes "data ''method'' = Some m" "data ''outhash'' = Some h" "data ''taskhash'' = Some t"
    and "data ''unihash'' = Some u" and "\<not> list_ex (in_class m h) (rows c)"
  shows "post_equivalent now data c =
     (Inr \<lparr>d_taskhash = t, d_method = m, d_unihash = u\<rparr>,
      c\<lparr>rows := rows c @ [new_row now data m h t u c], seq := Suc (seq c),
        trace := trace c @ [Select, Insert, Commit]\<rparr>)"
proof -
  have none: "candidate m h t (rows c) = None"
    using assms(5) by (simp add: candidate_None)
  have fresh: "\<not> list_ex (same_triple m h t) (rows c)"
    using assms(5) by (auto simp: list_ex_iff same_triple_def in_class_def)
  have "add_entry now data m h t None (c\<lparr>trace := trace c @ [Select]\<rparr>) =
     (Inr \<lparr>d_taskhash = t, d_method = m, d_unihash = u\<rparr>,
      c\<lparr>rows := rows c @ [new_row now data m h t u c], seq := Suc (seq c),
        trace := trace c @ [Select, Insert, Commit]\<rparr>)"
    using fresh assms(4)
    by (subst add_entry_new [where u = u]) (simp_all add: chosen_def new_row_def)
  with none show ?thesis
    by (simp add: post_equivalent_unfold [OF assms(1-3)])
qed

lemma post_case_B:
  assumes "data ''method'' = Some m" "data ''outhash'' = Some h" "data ''taskhash'' = Some t"
    and "data ''unihash'' = Some u0" and "oldest m h (rows c) = Some e"
    and "\<not> list_ex (same_triple m h t) (rows c)"
  shows "post_equivalent now data c =
     (Inr \<lparr>d_taskhash = t, d_method = m, d_unihash = unihash e\<rparr>,
      c\<lparr>rows := rows c @ [new_row now data m h t (unihash e) c], seq := Suc (seq c),
        trace := trace c @ [Select, Insert, Commit]\<rparr>)"
proof -
  have cand: "candidate m h t (rows c) = Some e"
    using assms(5,6) by (simp add: candidate_oldest)
  have differs: "taskhash e \<noteq> t"
    using candidate_exact [OF cand] assms(6) by simp
  have "add_entry now data m h t (Some e) (c\<lparr>trace := trace c @ [Select]\<rparr>) =
     (Inr \<lparr>d_taskhash = t, d_method = m, d_unihash = unihash e\<rparr>,
      c\<lparr>rows := rows c @ [new_row now data m h t (unihash e) c], seq := Suc (seq c),
        trace := trace c @ [Select, Insert, Commit]\<rparr>)"
    using assms(4,6)
    by (subst add_entry_new [where u = "unihash e"]) (simp_all add: chosen_def new_row_def)
  with cand differs show ?thesis
    by (simp add: post_equivalent_unfold [OF assms(1-3)])
qed

lemma post_case_C:
  assumes "data ''method'' = Some m" "data ''outhash'' = Some h" "data ''taskhash'' = Some t"
    and "candidate m h t (rows c) = Some r" and "taskhash r = t"
  shows "post_equivalent now data c = (Inr (project r), c\<lparr>trace := trace c @ [Select]\<rparr>)"
  using assms(4,5) by (simp add: post_equivalent_unfold [OF assms(1-3)])

lemma post_no_unihash:
  assumes "data ''method'' = Some m" "data ''outhash'' = Some h" "data ''taskhash'' = Some t"
    and "data ''unihash'' = None" and "\<not> list_ex (same_triple m h t) (rows c)"
  shows "post_equivalent now data c =
     (Inl (KeyError ''unihash''), c\<lparr>trace := trace c @ [Select]\<rparr>)"
proof (cases "candidate m h t (rows c)")
  case None
  with assms(4) show ?thesis
    by (simp add: post_equivalent_unfold [OF assms(1-3)] add_entry_KeyError)
next
  case (Some r)
  with candidate_exact [OF Some] assms(4,5) show ?thesis
    by (simp add: post_equivalent_unfold [OF assms(1-3)] add_entry_KeyError)
qed

text \<open>
  The handler's INSERT names only columns of the table and binds what the rows hold: no
  request, table or interleaving makes it fail with OperationalError or \<open>Unsupported\<close>.
\<close>

lemma add_entry_supported:
  "fst (add_entry now data m h t row c) \<noteq> Inl OperationalError \<and>
   fst (add_entry now data m h t row c) \<noteq> Inl Unsupported"
  by (simp add: add_entry_def db_insert_insert_data Let_def split: option.splits)

lemma post_equivalent_supported:
  "fst (post_equivalent_with others now data c) \<noteq> Inl OperationalError \<and>
   fst (post_equivalent_with others now data c) \<noteq> Inl Unsupported"
  by (simp add: post_equivalent_with_def Let_def add_entry_supported
      split: option.splits prod.splits)

lemma exact_candidate:
  assumes "list_ex (same_triple m h t) rs"
  shows "\<exists>r. candidate m h t rs = Some r \<and> r \<in> set rs \<and> same_triple m h t r"
proof -
  from assms have "list_ex (in_class m h) rs"
    by (auto simp: list_ex_iff same_triple_def in_class_def)
  then obtain r where r: "candidate m h t rs = Some r"
    using candidate_None [of m h t rs] by (cases "candidate m h t rs") auto
  with candidate_exact [OF r] assms candidate_mem [OF r] show ?thesis
    by (simp add: same_triple_def in_class_def)
qed

lemma unique_exact:
  assumes "unique_triples rs" "r \<in> set rs" "r' \<in> set rs"
    and "same_triple m h t r" "same_triple m h t r'"
  shows "r' = r"
proof -
  from assms(1) have "inj_on triple_of (set rs)"
    by (simp add: unique_triples_def distinct_map)
  moreover from assms(4,5) have "triple_of r' = triple_of r"
    by (simp add: triple_of_def same_triple_def)
  ultimately show ?thesis using assms(2,3) by (auto dest: inj_onD)
qed

text \<open>What one request leaves in the table.\<close>

lemma post_equivalent_effect:
  "(\<exists>tr. snd (post_equivalent now data c) = c\<lparr>trace := trace c @ tr\<rparr> \<and> Insert \<notin> set tr) \<or>
   (\<exists>m h t u. \<not> list_ex (same_triple m h t) (rows c) \<and>
      (case oldest m h (rows c) of None \<Rightarrow> True | Some e \<Rightarrow> u = unihash e) \<and>
      snd (post_equivalent now data c) =
        c\<lparr>rows := rows c @ [new_row now data m h t u c], seq := Suc (seq c),
          trace := trace c @ [Select, Insert, Commit]\<rparr>)"
proof (cases "data ''method'' = None \<or> data ''outhash'' = None \<or> data ''taskhash'' = None")
  case True
  from post_missing_key [OF True, of now c]
  have "snd (post_equivalent now data c) = c\<lparr>trace := trace c @ []\<rparr>" by auto
  then show ?thesis by (metis empty_iff empty_set)
next
  case False
  then obtain m h t where keys:
    "data ''method'' = Some m" "data ''outhash'' = Some h" "data ''taskhash'' = Some t"
    by auto
  show ?thesis
  proof (cases "list_ex (same_triple m h t) (rows c)")
    case True
    from exact_candidate [OF True] obtain r where
      "candidate m h t (rows c) = Some r" "same_triple m h t r" by auto
    then have "snd (post_equivalent now data c) = c\<lparr>trace := trace c @ [Select]\<rparr>"
      by (simp add: post_case_C [OF keys] same_triple_def)
    then show ?thesis by (intro disjI1 exI [of _ "[Select]"]) simp
  next
    case fresh: False
    show ?thesis
    proof (cases "data ''unihash''")
      case None
      have "snd (post_equivalent now data c) = c\<lparr>trace := trace c @ [Select]\<rparr>"
        by (simp add: post_no_unihash [OF keys None fresh])
      then show ?thesis by (intro disjI1 exI [of _ "[Select]"]) simp
    next
      case (Some u0)
      show ?thesis
      proof (cases "oldest m h (rows c)")
        case None
        then have "\<not> list_ex (in_class m h) (rows c)" by (simp add: oldest_None)
        from post_case_A [OF keys Some this, of now] fresh None show ?thesis
          by (intro disjI2 exI [of _ m] exI [of _ h] exI [of _ t] exI [of _ u0]) simp
      next
        case (Some e)
        from post_case_B [OF keys \<open>data ''unihash'' = Some u0\<close> Some fresh, of now] fresh Some
        show ?thesis
          by (intro disjI2 exI [of _ m] exI [of _ h] exI [of _ t] exI [of _ "unihash e"]) simp
      qed
    qed
  qed
qed

lemma get_equivalent_effect:
  "snd (get_equivalent query c) = c \<or>
   snd (get_equivalent query c) = c\<lparr>trace := trace c @ [Select]\<rparr>"
  by (simp add: get_equivalent_def db_select_def split: option.splits)

text \<open>The definitions that evaluate a handler on a concrete request and table.\<close>

lemmas handler_defs = post_equivalent_def post_equivalent_with_def get_equivalent_def
  db_select_def db_insert_def db_commit_def add_entry_def fetchone_def copy_optional_def
  insert_data_def table_columns_def bound_text_def
  optional_keys_def candidate_key_def same_triple_def in_class_def project_def empty_db_def
  run_def write_request_def read_query_def Let_def

section \<open>Invariants of the table\<close>

lemma serve_effect:
  "rows (serve call c) = rows c \<or>
   (\<exists>new. rows (serve call c) = rows c @ [new] \<and>
      \<not> list_ex (same_triple (method new) (outhash new) (taskhash new)) (rows c) \<and>
      (\<forall>e. oldest (method new) (outhash new) (rows c) = Some e \<longrightarrow> unihash new = unihash e))"
proof (cases call)
  case (Post now data)
  from post_equivalent_effect [of now data c] show ?thesis
  proof
    assume "\<exists>tr. snd (post_equivalent now data c) = c\<lparr>trace := trace c @ tr\<rparr> \<and> Insert \<notin> set tr"
    then obtain tr where "snd (post_equivalent now data c) = c\<lparr>trace := trace c @ tr\<rparr>"
      by blast
    then have "rows (serve call c) = rows c" using Post by simp
    then show ?thesis ..
  next
    assume "\<exists>m h t u. \<not> list_ex (same_triple m h t) (rows c) \<and>
      (case oldest m h (rows c) of None \<Rightarrow> True | Some e \<Rightarrow> u = unihash e) \<and>
      snd (post_equivalent now data c) =
        c\<lparr>rows := rows c @ [new_row now data m h t u c], seq := Suc (seq c),
          trace := trace c @ [Select, Insert, Commit]\<rparr>"
    then obtain m h t u where fresh: "\<not> list_ex (same_triple m h t) (rows c)"
      and inh: "case oldest m h (rows c) of None \<Rightarrow> True | Some e \<Rightarrow> u = unihash e"
      and eq0: "snd (post_equivalent now data c) =
        c\<lparr>rows := rows c @ [new_row now data m h t u c], seq := Suc (seq c),
          trace := trace c @ [Select, Insert, Commit]\<rparr>"
      by blast
    from eq0 have eq: "rows (serve call c) = rows c @ [new_row now data m h t u c]"
      using Post by simp
    have "rows (serve call c) = rows c @ [new_row now data m h t u c] \<and>
      \<not> list_ex (same_triple (method (new_row now data m h t u c))
          (outhash (new_row now data m h t u c)) (taskhash (new_row now data m h t u c))) (rows c) \<and>
      (\<forall>e. oldest (method (new_row now data m h t u c)) (outhash (new_row now data m h t u c))
          (rows c) = Some e \<longrightarrow> unihash (new_row now data m h t u c) = unihash e)"
      using fresh inh eq by (auto simp add: new_row_def split: option.splits)
    then show ?thesis by blast
  qed
next
  case (Get query)
  with get_equivalent_effect [of query c] show ?thesis by auto
qed

lemma run_Nil: "run [] c = c"
  by (simp add: run_def)

lemma run_Cons: "run (call # calls) c = run calls (serve call c)"
  by (simp add: run_def)

lemma unique_triples_serve:
  assumes "unique_triples (rows c)"
  shows "unique_triples (rows (serve call c))"
  using serve_effect [of call c]
proof
  assume "rows (serve call c) = rows c"
  with assms show ?thesis by simp
next
  assume "\<exists>new. rows (serve call c) = rows c @ [new] \<and>
      \<not> list_ex (same_triple (method new) (outhash new) (taskhash new)) (rows c) \<and>
      (\<forall>e. oldest (method new) (outhash new) (rows c) = Some e \<longrightarrow> unihash new = unihash e)"
  then obtain new where eq: "rows (serve call c) = rows c @ [new]"
    and fresh: "\<not> list_ex (same_triple (method new) (outhash new) (taskhash new)) (rows c)"
    by blast
  from fresh have "triple_of new \<notin> triple_of ` set (rows c)"
    by (auto simp: list_ex_iff same_triple_def triple_of_def)
  with assms eq show ?thesis by (simp add: unique_triples_def)
qed

lemma unique_triples_run:
  "unique_triples (rows c) \<Longrightarrow> unique_triples (rows (run calls c))"
  by (induction calls arbitrary: c) (simp_all add: run_Nil run_Cons unique_triples_serve)

lemma converged_snoc:
  assumes "converged rs"
    and "\<And>r. r \<in> set rs \<Longrightarrow> method r = method new \<Longrightarrow> outhash r = outhash new \<Longrightarrow>
           unihash r = unihash new"
  shows "converged (rs @ [new])"
  unfolding converged_def
proof (intro ballI impI)
  fix r r' :: row assume sm: "method r = method r' \<and> outhash r = outhash r'"
  assume "r \<in> set (rs @ [new])" "r' \<in> set (rs @ [new])"
  then consider "r \<in> set rs" "r' \<in> set rs" | "r \<in> set rs" "r' = new"
    | "r = new" "r' \<in> set rs" | "r = new" "r' = new"
    by auto
  then show "unihash r = unihash r'"
  proof cases
    case 1
    with assms(1) sm show ?thesis unfolding converged_def by blast
  next
    case 2
    with assms(2) [of r] sm show ?thesis by blast
  next
    case 3
    with assms(2) [of r'] sm show ?thesis by metis
  next
    case 4
    then show ?thesis by blast
  qed
qed

lemma oldest_exists:
  assumes "r \<in> set rs"
  shows "\<exists>e. oldest (method r) (outhash r) rs = Some e \<and> e \<in> set rs \<and>
           method e = method r \<and> outhash e = outhash r"
proof -
  from assms have "list_ex (in_class (method r) (outhash r)) rs"
    unfolding list_ex_iff in_class_def by blast
  then have "oldest (method r) (outhash r) rs \<noteq> None"
    unfolding oldest_None by blast
  then obtain e where e: "oldest (method r) (outhash r) rs = Some e" by blast
  from oldest_Some [OF e] have "e \<in> set rs" "method e = method r" "outhash e = outhash r"
    unfolding in_class_def by blast+
  with e show ?thesis by blast
qed

lemma converged_serve:
  assumes "converged (rows c)"
  shows "converged (rows (serve call c))"
  using serve_effect [of call c]
proof
  assume "rows (serve call c) = rows c"
  with assms show ?thesis by metis
next
  assume "\<exists>new. rows (serve call c) = rows c @ [new] \<and>
      \<not> list_ex (same_triple (method new) (outhash new) (taskhash new)) (rows c) \<and>
      (\<forall>e. oldest (method new) (outhash new) (rows c) = Some e \<longrightarrow> unihash new = unihash e)"
  then obtain new where eq: "rows (serve call c) = rows c @ [new]"
    and inh: "\<forall>e. oldest (method new) (outhash new) (rows c) = Some e \<longrightarrow> unihash new = unihash e"
    by blast
  have same: "unihash r = unihash new"
    if r: "r \<in> set (rows c)" "method r = method new" "outhash r = outhash new" for r
  proof -
    from oldest_exists [OF r(1)] obtain e where e: "oldest (method r) (outhash r) (rows c) = Some e"
      "e \<in> set (rows c)" "method e = method r" "outhash e = outhash r"
      by blast
    from assms r(1) e(2-4) have "unihash r = unihash e" unfolding converged_def by metis
    moreover from inh e(1) r(2,3) have "unihash new = unihash e" by metis
    ultimately show ?thesis by metis
  qed
  from assms same have "converged (rows c @ [new])" by (rule converged_snoc)
  with eq show ?thesis by metis
qed

lemma converged_run: "converged (rows c) \<Longrightarrow> converged (rows (run calls c))"
  by (induction calls arbitrary: c) (simp_all add: run_Nil run_Cons converged_serve)

lemma converged_canonical:
  assumes "converged rs"
  shows "canonical rs"
  unfolding canonical_def
proof
  fix r assume r: "r \<in> set rs"
  from oldest_exists [OF r] obtain e where e: "oldest (method r) (outhash r) rs = Some e"
    "e \<in> set rs" "method e = method r" "outhash e = outhash r"
    by blast
  from assms r e(2-4) have "unihash e = unihash r" unfolding converged_def by metis
  with e(1) show "map_option unihash (oldest (method r) (outhash r) rs) = Some (unihash r)"
    by simp
qed

lemma canonical_converged:
  assumes "canonical rs"
  shows "converged rs"
  unfolding converged_def
proof (intro ballI impI)
  fix r r' assume "r \<in> set rs" "r' \<in> set rs"
    and same: "method r = method r' \<and> outhash r = outhash r'"
  with assms have
    "map_option unihash (oldest (method r) (outhash r) rs) = Some (unihash r)"
    "map_option unihash (oldest (method r') (outhash r') rs) = Some (unihash r')"
    unfolding canonical_def by blast+
  with same show "unihash r = unihash r'" by (metis option.inject)
qed

text \<open>
  Claim C1, as the code has it. Equivalence-class convergence for requests served one after
  another, each to completion before the next begins: in every state so reached from the
  empty table, all rows of one (method, outhash) carry the same unihash, and it is the
  unihash of the earliest created row of that (method, outhash); and every further such
  sequence of requests preserves this from any table that has the property.
\<close>

theorem convergence_invariant:
  "(converged (rows (run calls empty_db)) \<and> canonical (rows (run calls empty_db))) \<and>
   (canonical (rows c) \<longrightarrow> converged (rows (run calls c)) \<and> canonical (rows (run calls c)))"
proof -
  have "converged (rows empty_db)" by (simp add: converged_def empty_db_def)
  then have "converged (rows (run calls empty_db))" by (rule converged_run)
  moreover have "converged (rows (run calls c))" if "canonical (rows c)"
    using that by (intro converged_run canonical_converged)
  ultimately show ?thesis by (simp add: converged_canonical)
qed

theorem convergence_invariant_witness:
  "canonical (rows empty_db) \<and>
   rows (run [Post 10 (write_request ''m'' ''h'' ''t1'' ''u1''),
              Post 20 (write_request ''m'' ''h'' ''t2'' ''u2'')] empty_db) =
     [\<lparr>row_id = 1, method = ''m'', outhash = ''h'', taskhash = ''t1'', unihash = ''u1'',
       created = 10, owner = None, PN = None, PV = None, PR = None, task = None,
       outhash_siginfo = None\<rparr>,
      \<lparr>row_id = 2, method = ''m'', outhash = ''h'', taskhash = ''t2'', unihash = ''u1'',
       created = 20, owner = None, PN = None, PV = None, PR = None, task = None,
       outhash_siginfo = None\<rparr>] \<and>
   converged (rows (run [Post 10 (write_request ''m'' ''h'' ''t1'' ''u1''),
              Post 20 (write_request ''m'' ''h'' ''t2'' ''u2'')] empty_db)) \<and>
   canonical (rows (run [Post 10 (write_request ''m'' ''h'' ''t1'' ''u1''),
              Post 20 (write_request ''m'' ''h'' ''t2'' ''u2'')] empty_db))"
  using convergence_invariant [of "[Post 10 (write_request ''m'' ''h'' ''t1'' ''u1''),
              Post 20 (write_request ''m'' ''h'' ''t2'' ''u2'')]" empty_db]
  by (simp add: handler_defs canonical_def)

text \<open>
  The claim as written, for every reachable state, fails: the handler awaits between its
  SELECT and its INSERT and neither serialises nor reconciles. Two requests for one new
  outhash with different taskhashes, the second served in that gap of the first, both find
  no candidate, and each stores its own unihash.
\<close>

theorem convergence_invariant_counterexample:
  "rows (snd (post_equivalent_with (serve (Post 15 (write_request ''m'' ''h'' ''t2'' ''u2''))) 20
     (write_request ''m'' ''h'' ''t1'' ''u1'') empty_db)) =
     [\<lparr>row_id = 1, method = ''m'', outhash = ''h'', taskhash = ''t2'', unihash = ''u2'',
       created = 15, owner = None, PN = None, PV = None, PR = None, task = None,
       outhash_siginfo = None\<rparr>,
      \<lparr>row_id = 2, method = ''m'', outhash = ''h'', taskhash = ''t1'', unihash = ''u1'',
       created = 20, owner = None, PN = None, PV = None, PR = None, task = None,
       outhash_siginfo = None\<rparr>] \<and>
   \<not> converged (rows (snd (post_equivalent_with
     (serve (Post 15 (write_request ''m'' ''h'' ''t2'' ''u2''))) 20
     (write_request ''m'' ''h'' ''t1'' ''u1'') empty_db))) \<and>
   \<not> canonical (rows (snd (post_equivalent_with
     (serve (Post 15 (write_request ''m'' ''h'' ''t2'' ''u2''))) 20
     (write_request ''m'' ''h'' ''t1'' ''u1'') empty_db)))"
  by (simp add: handler_defs converged_def canonical_def oldest_def)

text \<open>
  Claim C7. Uniqueness: every state reached from the empty table has at most one row for
  each (method, outhash, taskhash), every sequence of requests preserves this, and a write
  request served on its own never fails on the UNIQUE constraint: an exact match sends it
  to the branch that does not insert.
\<close>

theorem uniqueness_invariant:
  "unique_triples (rows (run calls empty_db)) \<and>
   (unique_triples (rows c) \<longrightarrow> unique_triples (rows (run calls c))) \<and>
   fst (post_equivalent now data c) \<noteq> Inl IntegrityError"
proof -
  have "unique_triples (rows empty_db)" by (simp add: unique_triples_def empty_db_def)
  then have "unique_triples (rows (run calls empty_db))" by (rule unique_triples_run)
  moreover have "fst (post_equivalent now data c) \<noteq> Inl IntegrityError"
  proof (cases "data ''method'' = None \<or> data ''outhash'' = None \<or> data ''taskhash'' = None")
    case True
    from post_missing_key [OF True, of now c] show ?thesis by auto
  next
    case False
    then obtain m h t where keys:
      "data ''method'' = Some m" "data ''outhash'' = Some h" "data ''taskhash'' = Some t"
      by auto
    show ?thesis
    proof (cases "list_ex (same_triple m h t) (rows c)")
      case True
      from exact_candidate [OF True] obtain r where
        "candidate m h t (rows c) = Some r" "same_triple m h t r" by auto
      then show ?thesis by (simp add: post_case_C [OF keys] same_triple_def)
    next
      case fresh: False
      show ?thesis
      proof (cases "data ''unihash''")
        case None
        then show ?thesis by (simp add: post_no_unihash [OF keys None fresh])
      next
        case (Some u0)
        show ?thesis
        proof (cases "oldest m h (rows c)")
          case None
          then have "\<not> list_ex (in_class m h) (rows c)" by (simp add: oldest_None)
          from post_case_A [OF keys Some this, of now] show ?thesis by simp
        next
          case (Some e)
          from post_case_B [OF keys \<open>data ''unihash'' = Some u0\<close> Some fresh, of now]
          show ?thesis by simp
        qed
      qed
    qed
  qed
  ultimately show ?thesis by (simp add: unique_triples_run)
qed

theorem uniqueness_invariant_witness:
  "unique_triples (rows empty_db) \<and>
   unique_triples (rows (run [Post 10 (write_request ''m'' ''h'' ''t1'' ''u1''),
              Post 20 (write_request ''m'' ''h'' ''t1'' ''u2'')] empty_db)) \<and>
   map triple_of (rows (run [Post 10 (write_request ''m'' ''h'' ''t1'' ''u1''),
              Post 20 (write_request ''m'' ''h'' ''t1'' ''u2'')] empty_db)) =
     [(''m'', ''h'', ''t1'')] \<and>
   fst (post_equivalent 20 (write_request ''m'' ''h'' ''t1'' ''u2'')
          (run [Post 10 (write_request ''m'' ''h'' ''t1'' ''u1'')] empty_db)) \<noteq>
     Inl IntegrityError"
  using uniqueness_invariant [of "[Post 10 (write_request ''m'' ''h'' ''t1'' ''u1''),
              Post 20 (write_request ''m'' ''h'' ''t1'' ''u2'')]" empty_db 20
            "write_request ''m'' ''h'' ''t1'' ''u2''"]
    uniqueness_invariant [of "[]" "run [Post 10 (write_request ''m'' ''h'' ''t1'' ''u1'')] empty_db"
            20 "write_request ''m'' ''h'' ''t1'' ''u2''"]
  by (simp add: handler_defs unique_triples_def triple_of_def)

section \<open>The three cases of the merge\<close>

text \<open>
  Claim C2. Case B, unihash inheritance: when the table holds a row of the request's
  (method, outhash) and no row of its (method, outhash, taskhash), the write request
  appends exactly one row, whose unihash is that of the candidate (the earliest created row
  of the (method, outhash)) and not the request's, and answers with that unihash.
\<close>

theorem merge_case_B:
  assumes "data ''method'' = Some m" "data ''outhash'' = Some h" "data ''taskhash'' = Some t"
    and "data ''unihash'' = Some u"
    and "list_ex (in_class m h) (rows c)" and "\<not> list_ex (same_triple m h t) (rows c)"
  shows "\<exists>e new. candidate m h t (rows c) = Some e \<and> oldest m h (rows c) = Some e \<and>
           post_equivalent now data c =
             (Inr \<lparr>d_taskhash = t, d_method = m, d_unihash = unihash e\<rparr>,
              c\<lparr>rows := rows c @ [new], seq := Suc (seq c),
                trace := trace c @ [Select, Insert, Commit]\<rparr>) \<and>
           method new = m \<and> outhash new = h \<and> taskhash new = t \<and>
           unihash new = unihash e \<and> created new = now"
proof -
  from assms(5) have "oldest m h (rows c) \<noteq> None" by (simp add: oldest_None)
  then obtain e where e: "oldest m h (rows c) = Some e" by blast
  with assms(6) have cand: "candidate m h t (rows c) = Some e" by (simp add: candidate_oldest)
  let ?new = "new_row now data m h t (unihash e) c"
  have sel: "method ?new = m" "outhash ?new = h" "taskhash ?new = t"
    "unihash ?new = unihash e" "created ?new = now"
    by (simp_all add: new_row_def)
  from post_case_B [OF assms(1-4) e assms(6), of now] e cand sel show ?thesis by blast
qed

theorem merge_case_B_witness:
  "write_request ''m'' ''h'' ''t2'' ''u2'' ''unihash'' = Some ''u2'' \<and>
   list_ex (in_class ''m'' ''h'') (rows (run [Post 10 (write_request ''m'' ''h'' ''t1'' ''u1'')] empty_db)) \<and>
   \<not> list_ex (same_triple ''m'' ''h'' ''t2'')
       (rows (run [Post 10 (write_request ''m'' ''h'' ''t1'' ''u1'')] empty_db)) \<and>
   fst (post_equivalent 20 (write_request ''m'' ''h'' ''t2'' ''u2'')
         (run [Post 10 (write_request ''m'' ''h'' ''t1'' ''u1'')] empty_db)) =
     Inr \<lparr>d_taskhash = ''t2'', d_method = ''m'', d_unihash = ''u1''\<rparr> \<and>
   map unihash (rows (snd (post_equivalent 20 (write_request ''m'' ''h'' ''t2'' ''u2'')
         (run [Post 10 (write_request ''m'' ''h'' ''t1'' ''u1'')] empty_db)))) = [''u1'', ''u1'']"
  using merge_case_B [of "write_request ''m'' ''h'' ''t2'' ''u2''" "''m''" "''h''" "''t2''" "''u2''"
      "run [Post 10 (write_request ''m'' ''h'' ''t1'' ''u1'')] empty_db" 20]
  by (simp add: handler_defs)

text \<open>
  Claim C3. Case C, re-observation: when the table holds the row of the request's
  (method, outhash, taskhash), the write request sends only its SELECT, leaves table and
  sequence as they are, and answers with that row's taskhash, method and unihash; the
  \<^verbatim>\<open>unihash\<close> of the request is not read, so any value of it, or none, gives the same.
\<close>

theorem merge_case_C:
  assumes "data ''method'' = Some m" "data ''outhash'' = Some h" "data ''taskhash'' = Some t"
    and "unique_triples (rows c)" and "r \<in> set (rows c)" and "same_triple m h t r"
  shows "post_equivalent now data c =
           (Inr \<lparr>d_taskhash = taskhash r, d_method = method r, d_unihash = unihash r\<rparr>,
            c\<lparr>trace := trace c @ [Select]\<rparr>) \<and>
         post_equivalent now' (data(''unihash'' := v)) c = post_equivalent now data c"
proof -
  from assms(5,6) have "list_ex (same_triple m h t) (rows c)"
    unfolding list_ex_iff by blast
  from exact_candidate [OF this] obtain r' where r': "candidate m h t (rows c) = Some r'"
    "r' \<in> set (rows c)" "same_triple m h t r'"
    by blast
  from unique_exact [OF assms(4,5) r'(2) assms(6) r'(3)] have "r' = r" .
  with r' have cand: "candidate m h t (rows c) = Some r" and t: "taskhash r = t"
    by (simp_all add: same_triple_def)
  have keys': "(data(''unihash'' := v)) ''method'' = Some m"
    "(data(''unihash'' := v)) ''outhash'' = Some h"
    "(data(''unihash'' := v)) ''taskhash'' = Some t"
    using assms(1-3) by simp_all
  show ?thesis
    by (simp add: post_case_C [OF assms(1-3) cand t] post_case_C [OF keys' cand t] project_def)
qed

theorem merge_case_C_witness:
  "unique_triples (rows (run [Post 10 (write_request ''m'' ''h'' ''t1'' ''u1'')] empty_db)) \<and>
   post_equivalent 20 (write_request ''m'' ''h'' ''t1'' ''u9'')
     (run [Post 10 (write_request ''m'' ''h'' ''t1'' ''u1'')] empty_db) =
   (Inr \<lparr>d_taskhash = ''t1'', d_method = ''m'', d_unihash = ''u1''\<rparr>,
    \<lparr>rows = [\<lparr>row_id = 1, method = ''m'', outhash = ''h'', taskhash = ''t1'',
        unihash = ''u1'', created = 10, owner = None, PN = None, PV = None,
        PR = None, task = None, outhash_siginfo = None\<rparr>],
     seq = 1, trace = [Select, Insert, Commit, Select]\<rparr>)"
  using merge_case_C [of "write_request ''m'' ''h'' ''t1'' ''u9''" "''m''" "''h''" "''t1''"
      "run [Post 10 (write_request ''m'' ''h'' ''t1'' ''u1'')] empty_db"
      "\<lparr>row_id = 1, method = ''m'', outhash = ''h'', taskhash = ''t1'',
        unihash = ''u1'', created = 10, owner = None, PN = None, PV = None,
        PR = None, task = None, outhash_siginfo = None\<rparr>" 20 20 "Some ''u9''"]
  by (simp add: handler_defs unique_triples_def triple_of_def)

section \<open>The lookup\<close>

lemma insort_key_map:
  "insort_key k (g x) (map g ys) = map g (insort_key (\<lambda>y. k (g y)) x ys)"
  by (induction ys) simp_all

lemma sort_key_map: "sort_key k (map g xs) = map g (sort_key (\<lambda>y. k (g y)) xs)"
  by (induction xs) (simp_all add: insort_key_map)

lemma fetchone_map: "fetchone (map g xs) = map_option g (fetchone xs)"
  by (cases xs) (simp_all add: fetchone_def)

lemma get_equivalent_select:
  assumes "query ''method'' = Some m" "query ''taskhash'' = Some t"
  shows "get_equivalent query c =
     (Inr (map_option project
        (fetchone (sort_key created (filter (\<lambda>r. method r = m \<and> taskhash r = t) (rows c))))),
      c\<lparr>trace := trace c @ [Select]\<rparr>)"
  using assms by (simp add: get_equivalent_def db_select_def)

text \<open>
  Claim C4. Lookup: a read request with method and taskhash answers with the projection of
  a row of that method and taskhash whose \<^verbatim>\<open>created\<close> is least among such rows, and with
  null, which is a normal answer and not an error, exactly when there is no such row. The
  outhash column plays no part: the answer is the same on the table with every outhash
  replaced.
\<close>

theorem lookup_oldest:
  assumes "query ''method'' = Some m" "query ''taskhash'' = Some t"
  shows "\<exists>res. get_equivalent query c = (Inr res, c\<lparr>trace := trace c @ [Select]\<rparr>) \<and>
           (res = None \<longleftrightarrow> \<not> list_ex (\<lambda>r. method r = m \<and> taskhash r = t) (rows c)) \<and>
           (\<forall>d. res = Some d \<longrightarrow>
              (\<exists>r \<in> set (rows c).
                 d = \<lparr>d_taskhash = taskhash r, d_method = method r, d_unihash = unihash r\<rparr> \<and>
                 method r = m \<and> taskhash r = t \<and>
                 (\<forall>x \<in> set (rows c). method x = m \<and> taskhash x = t \<longrightarrow> created r \<le> created x))) \<and>
           fst (get_equivalent query (c\<lparr>rows := map (\<lambda>r. r\<lparr>outhash := f r\<rparr>) (rows c)\<rparr>)) = Inr res"
proof -
  let ?p = "\<lambda>r. method r = m \<and> taskhash r = t"
  let ?sel = "fetchone (sort_key created (filter ?p (rows c)))"
  let ?g = "\<lambda>r. r\<lparr>outhash := f r\<rparr>"
  have eq: "get_equivalent query c = (Inr (map_option project ?sel), c\<lparr>trace := trace c @ [Select]\<rparr>)"
    by (rule get_equivalent_select [OF assms])
  have none: "map_option project ?sel = None \<longleftrightarrow> \<not> list_ex ?p (rows c)"
    by (simp add: fetchone_sort_None list_ex_iff)
  have some: "\<exists>r \<in> set (rows c).
        d = \<lparr>d_taskhash = taskhash r, d_method = method r, d_unihash = unihash r\<rparr> \<and>
        method r = m \<and> taskhash r = t \<and>
                 (\<forall>x \<in> set (rows c). method x = m \<and> taskhash x = t \<longrightarrow> created r \<le> created x)"
    if "map_option project ?sel = Some d" for d
  proof -
    from that obtain r where r: "?sel = Some r" and d: "d = project r" by auto
    from fetchone_sort_Some [OF r] d [unfolded project_def] show ?thesis by blast
  qed
  have flt: "filter ?p (map ?g (rows c)) = map ?g (filter ?p (rows c))"
    by (simp add: filter_map comp_def)
  have sel': "fetchone (sort_key created (filter ?p (map ?g (rows c)))) = map_option ?g ?sel"
    unfolding flt by (simp add: sort_key_map fetchone_map)
  have prj: "map_option project (map_option ?g ?sel) = map_option project ?sel"
    by (cases ?sel) (simp_all add: project_def)
  have "get_equivalent query (c\<lparr>rows := map ?g (rows c)\<rparr>) =
      (Inr (map_option project (fetchone (sort_key created (filter ?p (map ?g (rows c)))))),
       c\<lparr>rows := map ?g (rows c), trace := trace c @ [Select]\<rparr>)"
    by (simp add: get_equivalent_select [OF assms])
  then have indep:
    "fst (get_equivalent query (c\<lparr>rows := map ?g (rows c)\<rparr>)) = Inr (map_option project ?sel)"
    unfolding sel' prj by simp
  show ?thesis
  proof (intro exI [of _ "map_option project ?sel"] conjI allI impI)
    show "get_equivalent query c =
      (Inr (map_option project ?sel), c\<lparr>trace := trace c @ [Select]\<rparr>)"
      by (rule eq)
    show "map_option project ?sel = None \<longleftrightarrow> \<not> list_ex ?p (rows c)"
      by (rule none)
    show "\<exists>r \<in> set (rows c).
        d = \<lparr>d_taskhash = taskhash r, d_method = method r, d_unihash = unihash r\<rparr> \<and>
        method r = m \<and> taskhash r = t \<and>
        (\<forall>x \<in> set (rows c). method x = m \<and> taskhash x = t \<longrightarrow> created r \<le> created x)"
      if "map_option project ?sel = Some d" for d
      using that by (rule some)
    show "fst (get_equivalent query (c\<lparr>rows := map ?g (rows c)\<rparr>)) =
      Inr (map_option project ?sel)"
      by (rule indep)
  qed
qed

theorem lookup_oldest_witness:
  "read_query ''m'' ''t'' ''method'' = Some ''m'' \<and> read_query ''m'' ''t'' ''taskhash'' = Some ''t'' \<and>
   fst (get_equivalent (read_query ''m'' ''t'')
     (run [Post 30 (write_request ''m'' ''h1'' ''t'' ''u1''),
           Post 20 (write_request ''m'' ''h2'' ''t'' ''u2'')] empty_db)) =
     Inr (Some \<lparr>d_taskhash = ''t'', d_method = ''m'', d_unihash = ''u2''\<rparr>) \<and>
   fst (get_equivalent (read_query ''m'' ''t'') empty_db) = Inr None"
  using lookup_oldest [of "read_query ''m'' ''t''" "''m''" "''t''"
      "run [Post 30 (write_request ''m'' ''h1'' ''t'' ''u1''),
           Post 20 (write_request ''m'' ''h2'' ''t'' ''u2'')] empty_db" "\<lambda>r. []"]
  by (simp add: handler_defs)

section \<open>Frame: rows are only ever appended\<close>

lemma run_extends: "\<exists>ext. rows (run calls c) = rows c @ ext"
proof (induction calls arbitrary: c)
  case Nil
  show ?case by (simp add: run_Nil)
next
  case (Cons call calls)
  from serve_effect [of call c] obtain ext1 where "rows (serve call c) = rows c @ ext1"
    by (metis append_Nil2)
  moreover from Cons.IH [of "serve call c"] obtain ext2 where
    "rows (run calls (serve call c)) = rows (serve call c) @ ext2" by blast
  ultimately have "rows (run (call # calls) c) = rows c @ (ext1 @ ext2)"
    by (simp add: run_Cons)
  then show ?case by blast
qed

text \<open>
  Claim C9. Immutability frame: a write request leaves every row of the table in place and
  appends at most one row; a read request sends at most its SELECT and leaves table and
  sequence as they are; so after any sequence of requests the table still begins with the
  rows it had.
\<close>

theorem immutability_frame:
  "(\<exists>ext. rows (snd (post_equivalent now data c)) = rows c @ ext \<and> length ext \<le> 1) \<and>
   (\<exists>tr. snd (get_equivalent query c) = c\<lparr>trace := trace c @ tr\<rparr> \<and> (tr = [] \<or> tr = [Select])) \<and>
   (\<exists>ext. rows (run calls c) = rows c @ ext)"
proof (intro conjI)
  from post_equivalent_effect [of now data c]
  show "\<exists>ext. rows (snd (post_equivalent now data c)) = rows c @ ext \<and> length ext \<le> 1"
  proof
    assume "\<exists>tr. snd (post_equivalent now data c) = c\<lparr>trace := trace c @ tr\<rparr> \<and> Insert \<notin> set tr"
    then obtain tr where "snd (post_equivalent now data c) = c\<lparr>trace := trace c @ tr\<rparr>" by blast
    then have "rows (snd (post_equivalent now data c)) = rows c @ [] \<and> length ([]::row list) \<le> 1"
      by simp
    then show ?thesis by (rule exI)
  next
    assume "\<exists>m h t u. \<not> list_ex (same_triple m h t) (rows c) \<and>
      (case oldest m h (rows c) of None \<Rightarrow> True | Some e \<Rightarrow> u = unihash e) \<and>
      snd (post_equivalent now data c) =
        c\<lparr>rows := rows c @ [new_row now data m h t u c], seq := Suc (seq c),
          trace := trace c @ [Select, Insert, Commit]\<rparr>"
    then obtain m h t u where "snd (post_equivalent now data c) =
        c\<lparr>rows := rows c @ [new_row now data m h t u c], seq := Suc (seq c),
          trace := trace c @ [Select, Insert, Commit]\<rparr>"
      by blast
    then have "rows (snd (post_equivalent now data c)) = rows c @ [new_row now data m h t u c] \<and>
        length [new_row now data m h t u c] \<le> 1"
      by simp
    then show ?thesis by (rule exI)
  qed
next
  from get_equivalent_effect [of query c]
  show "\<exists>tr. snd (get_equivalent query c) = c\<lparr>trace := trace c @ tr\<rparr> \<and> (tr = [] \<or> tr = [Select])"
  proof
    assume "snd (get_equivalent query c) = c"
    then have "snd (get_equivalent query c) = c\<lparr>trace := trace c @ []\<rparr> \<and>
        ([] = ([]::stmt list) \<or> [] = [Select])"
      by simp
    then show ?thesis by (rule exI)
  next
    assume "snd (get_equivalent query c) = c\<lparr>trace := trace c @ [Select]\<rparr>"
    then have "snd (get_equivalent query c) = c\<lparr>trace := trace c @ [Select]\<rparr> \<and>
        ([Select] = [] \<or> [Select] = [Select])"
      by simp
    then show ?thesis by (rule exI)
  qed
next
  show "\<exists>ext. rows (run calls c) = rows c @ ext" by (rule run_extends)
qed

section \<open>The optional columns\<close>

lemma copy_optional_cong:
  assumes "\<forall>k \<in> set optional_keys. data' k = data k"
  shows "copy_optional data' ins = copy_optional data ins"
  unfolding copy_optional_def using assms by (intro fold_cong) simp_all

lemma add_entry_cong:
  assumes "data' ''unihash'' = data ''unihash''" "\<forall>k \<in> set optional_keys. data' k = data k"
  shows "add_entry now data' m h t row c = add_entry now data m h t row c"
  unfolding add_entry_def insert_data_def assms(1) copy_optional_cong [OF assms(2)] by (rule refl)

lemma post_equivalent_cong:
  assumes "\<forall>k \<in> set ([''method'', ''outhash'', ''taskhash'', ''unihash''] @ optional_keys).
             data' k = data k"
  shows "post_equivalent now data' c = post_equivalent now data c"
proof -
  from assms have req: "data' ''method'' = data ''method''" "data' ''outhash'' = data ''outhash''"
    "data' ''taskhash'' = data ''taskhash''" "data' ''unihash'' = data ''unihash''"
    and opt: "\<forall>k \<in> set optional_keys. data' k = data k"
    by simp_all
  show ?thesis
    unfolding post_equivalent_def post_equivalent_with_def req(1-3)
      add_entry_cong [OF req(4) opt]
    by (rule refl)
qed

text \<open>
  Claim C10. Metadata whitelist: the keys bound to the INSERT are the five that the handler
  sets itself and those of \<^verbatim>\<open>owner\<close>, \<^verbatim>\<open>PN\<close>, \<^verbatim>\<open>PV\<close>, \<^verbatim>\<open>PR\<close>, \<^verbatim>\<open>task\<close> and
  \<^verbatim>\<open>outhash_siginfo\<close> that the request has, and no other. When a write request inserts,
  the row's six optional columns hold what the request has under these keys (NULL for a key
  that is absent), its \<^verbatim>\<open>id\<close> and \<^verbatim>\<open>created\<close> come from the sequence and the clock, and
  every other key of the request is ignored: a request that agrees on the four required and
  the six optional keys gives the same answer and the same table.
\<close>

theorem metadata_whitelist:
  assumes "rows (snd (post_equivalent now data c)) \<noteq> rows c"
  shows "\<exists>new. rows (snd (post_equivalent now data c)) = rows c @ [new] \<and>
           owner new = data ''owner'' \<and> PN new = data ''PN'' \<and> PV new = data ''PV'' \<and>
           PR new = data ''PR'' \<and> task new = data ''task'' \<and>
           outhash_siginfo new = data ''outhash_siginfo'' \<and>
           row_id new = Suc (seq c) \<and> created new = now \<and>
           (\<forall>m h t u. fst ` set (insert_data now data m h t u) =
              {''method'', ''outhash'', ''taskhash'', ''unihash'', ''created''} \<union>
              {k \<in> set optional_keys. data k \<noteq> None}) \<and>
           (\<forall>data'. (\<forall>k \<in> set ([''method'', ''outhash'', ''taskhash'', ''unihash''] @ optional_keys).
                        data' k = data k) \<longrightarrow>
                    post_equivalent now data' c = post_equivalent now data c)"
proof -
  from post_equivalent_effect [of now data c] assms
  obtain m h t u where eq: "snd (post_equivalent now data c) =
        c\<lparr>rows := rows c @ [new_row now data m h t u c], seq := Suc (seq c),
          trace := trace c @ [Select, Insert, Commit]\<rparr>"
    by fastforce
  let ?new = "new_row now data m h t u c"
  from eq have "rows (snd (post_equivalent now data c)) = rows c @ [?new]" by simp
  moreover have "owner ?new = data ''owner''" "PN ?new = data ''PN''" "PV ?new = data ''PV''"
    "PR ?new = data ''PR''" "task ?new = data ''task''"
    "outhash_siginfo ?new = data ''outhash_siginfo''"
    "row_id ?new = Suc (seq c)" "created ?new = now"
    by (simp_all add: new_row_def)
  moreover have "\<forall>m h t u. fst ` set (insert_data now data m h t u) =
              {''method'', ''outhash'', ''taskhash'', ''unihash'', ''created''} \<union>
              {k \<in> set optional_keys. data k \<noteq> None}"
    by (intro allI insert_data_keys)
  ultimately show ?thesis
    using post_equivalent_cong [of _ data now c] by blast
qed

theorem metadata_whitelist_witness:
  "rows (snd (post_equivalent 10
      ((write_request ''m'' ''h'' ''t'' ''u'')
         (''owner'' \<mapsto> ''alice'', ''extra'' \<mapsto> ''x'', ''id'' \<mapsto> ''99'', ''created'' \<mapsto> ''never''))
      empty_db)) \<noteq> rows empty_db \<and>
   rows (snd (post_equivalent 10
      ((write_request ''m'' ''h'' ''t'' ''u'')
         (''owner'' \<mapsto> ''alice'', ''extra'' \<mapsto> ''x'', ''id'' \<mapsto> ''99'', ''created'' \<mapsto> ''never''))
      empty_db)) =
     [\<lparr>row_id = 1, method = ''m'', outhash = ''h'', taskhash = ''t'', unihash = ''u'',
       created = 10, owner = Some ''alice'', PN = None, PV = None, PR = None, task = None,
       outhash_siginfo = None\<rparr>] \<and>
   map fst (insert_data 10
      ((write_request ''m'' ''h'' ''t'' ''u'')
         (''owner'' \<mapsto> ''alice'', ''extra'' \<mapsto> ''x'', ''id'' \<mapsto> ''99'', ''created'' \<mapsto> ''never''))
      ''m'' ''h'' ''t'' ''u'') =
     [''method'', ''outhash'', ''taskhash'', ''unihash'', ''created'', ''owner''] \<and>
   post_equivalent 10 ((write_request ''m'' ''h'' ''t'' ''u'')(''owner'' \<mapsto> ''alice'')) empty_db =
   post_equivalent 10
      ((write_request ''m'' ''h'' ''t'' ''u'')
         (''owner'' \<mapsto> ''alice'', ''extra'' \<mapsto> ''x'', ''id'' \<mapsto> ''99'', ''created'' \<mapsto> ''never''))
      empty_db"
  using metadata_whitelist [of 10
      "(write_request ''m'' ''h'' ''t'' ''u'')
         (''owner'' \<mapsto> ''alice'', ''extra'' \<mapsto> ''x'', ''id'' \<mapsto> ''99'', ''created'' \<mapsto> ''never'')"
      empty_db]
  by (simp add: handler_defs)

section \<open>Requests with a missing field\<close>

text \<open>
  Claim C6, as the code has it. A write request without \<^verbatim>\<open>method\<close>, \<^verbatim>\<open>outhash\<close> or
  \<^verbatim>\<open>taskhash\<close> raises KeyError before any statement is sent: the connection is as it was.
  A write request that lacks only \<^verbatim>\<open>unihash\<close> sends the candidate SELECT first; it then
  answers with the stored row when the triple is stored, and raises KeyError otherwise. In
  neither case is the table modified.
\<close>

theorem missing_field:
  "(data ''method'' = None \<or> data ''outhash'' = None \<or> data ''taskhash'' = None \<longrightarrow>
      (\<exists>k. post_equivalent now data c = (Inl (KeyError k), c))) \<and>
   (data ''method'' = Some m \<and> data ''outhash'' = Some h \<and> data ''taskhash'' = Some t \<and>
    data ''unihash'' = None \<longrightarrow>
      (\<exists>res. post_equivalent now data c = (res, c\<lparr>trace := trace c @ [Select]\<rparr>) \<and>
         (list_ex (same_triple m h t) (rows c) \<longrightarrow>
            (\<exists>r \<in> set (rows c). same_triple m h t r \<and>
               res = Inr \<lparr>d_taskhash = taskhash r, d_method = method r, d_unihash = unihash r\<rparr>)) \<and>
         (\<not> list_ex (same_triple m h t) (rows c) \<longrightarrow> res = Inl (KeyError ''unihash''))))"
proof (intro conjI impI)
  assume "data ''method'' = None \<or> data ''outhash'' = None \<or> data ''taskhash'' = None"
  then show "\<exists>k. post_equivalent now data c = (Inl (KeyError k), c)"
    by (rule post_missing_key)
next
  assume a: "data ''method'' = Some m \<and> data ''outhash'' = Some h \<and> data ''taskhash'' = Some t \<and>
    data ''unihash'' = None"
  then have keys: "data ''method'' = Some m" "data ''outhash'' = Some h" "data ''taskhash'' = Some t"
    and nou: "data ''unihash'' = None"
    by simp_all
  show "\<exists>res. post_equivalent now data c = (res, c\<lparr>trace := trace c @ [Select]\<rparr>) \<and>
         (list_ex (same_triple m h t) (rows c) \<longrightarrow>
            (\<exists>r \<in> set (rows c). same_triple m h t r \<and>
               res = Inr \<lparr>d_taskhash = taskhash r, d_method = method r, d_unihash = unihash r\<rparr>)) \<and>
         (\<not> list_ex (same_triple m h t) (rows c) \<longrightarrow> res = Inl (KeyError ''unihash''))"
  proof (cases "list_ex (same_triple m h t) (rows c)")
    case True
    from exact_candidate [OF True] obtain r where r: "candidate m h t (rows c) = Some r"
      "r \<in> set (rows c)" "same_triple m h t r"
      by blast
    then have "taskhash r = t" by (simp add: same_triple_def)
    from post_case_C [OF keys r(1) this, of now, unfolded project_def] True r(2,3)
    show ?thesis by blast
  next
    case False
    from post_no_unihash [OF keys nou False, of now] False show ?thesis by simp
  qed
qed

theorem missing_field_witness:
  "(Map.empty(''outhash'' \<mapsto> ''h'', ''taskhash'' \<mapsto> ''t'', ''unihash'' \<mapsto> ''u'')) ''method'' = None \<and>
   post_equivalent 10 (Map.empty(''outhash'' \<mapsto> ''h'', ''taskhash'' \<mapsto> ''t'', ''unihash'' \<mapsto> ''u''))
     empty_db = (Inl (KeyError ''method''), empty_db) \<and>
   \<not> list_ex (same_triple ''m'' ''h'' ''t'') (rows empty_db) \<and>
   fst (post_equivalent 10 (Map.empty(''method'' \<mapsto> ''m'', ''outhash'' \<mapsto> ''h'', ''taskhash'' \<mapsto> ''t''))
     empty_db) = Inl (KeyError ''unihash'') \<and>
   list_ex (same_triple ''m'' ''h'' ''t'')
     (rows (run [Post 10 (write_request ''m'' ''h'' ''t'' ''u'')] empty_db)) \<and>
   fst (post_equivalent 20 (Map.empty(''method'' \<mapsto> ''m'', ''outhash'' \<mapsto> ''h'', ''taskhash'' \<mapsto> ''t''))
     (run [Post 10 (write_request ''m'' ''h'' ''t'' ''u'')] empty_db)) =
     Inr \<lparr>d_taskhash = ''t'', d_method = ''m'', d_unihash = ''u''\<rparr>"
  using missing_field [of "Map.empty(''outhash'' \<mapsto> ''h'', ''taskhash'' \<mapsto> ''t'', ''unihash'' \<mapsto> ''u'')"
      10 empty_db "''m''" "''h''" "''t''"]
    missing_field [of "Map.empty(''method'' \<mapsto> ''m'', ''outhash'' \<mapsto> ''h'', ''taskhash'' \<mapsto> ''t'')"
      10 empty_db "''m''" "''h''" "''t''"]
    missing_field [of "Map.empty(''method'' \<mapsto> ''m'', ''outhash'' \<mapsto> ''h'', ''taskhash'' \<mapsto> ''t'')"
      20 "run [Post 10 (write_request ''m'' ''h'' ''t'' ''u'')] empty_db" "''m''" "''h''" "''t''"]
  by (simp add: handler_defs)

text \<open>
  The claim as written fails: a request without \<^verbatim>\<open>unihash\<close> on the empty table is
  rejected only after the SELECT has been sent, and the same request is not rejected at all
  once the triple is stored.
\<close>

theorem missing_field_counterexample:
  "(Map.empty(''method'' \<mapsto> ''m'', ''outhash'' \<mapsto> ''h'', ''taskhash'' \<mapsto> ''t'')) ''unihash'' = None \<and>
   post_equivalent 10 (Map.empty(''method'' \<mapsto> ''m'', ''outhash'' \<mapsto> ''h'', ''taskhash'' \<mapsto> ''t''))
     empty_db =
     (Inl (KeyError ''unihash''), \<lparr>rows = [], seq = 0, trace = [Select]\<rparr>) \<and>
   fst (post_equivalent 20 (Map.empty(''method'' \<mapsto> ''m'', ''outhash'' \<mapsto> ''h'', ''taskhash'' \<mapsto> ''t''))
     (run [Post 10 (write_request ''m'' ''h'' ''t'' ''u'')] empty_db)) =
     Inr \<lparr>d_taskhash = ''t'', d_method = ''m'', d_unihash = ''u''\<rparr>"
  by (simp add: handler_defs)

section \<open>A writer in the gap between SELECT and INSERT\<close>

text \<open>
  Claim C5, as the code has it. When the candidate query found no row of the triple and
  another request has stored the triple before the INSERT is sent, the INSERT fails on the
  UNIQUE constraint and the handler raises IntegrityError to its caller: nothing is read
  again, no answer is built, and the table is as the other request left it.
\<close>

theorem duplicate_insert_raises:
  assumes "data ''method'' = Some m" "data ''outhash'' = Some h" "data ''taskhash'' = Some t"
    and "data ''unihash'' = Some u"
    and "\<not> list_ex (same_triple m h t) (rows c)"
    and "list_ex (same_triple m h t) (rows (others (c\<lparr>trace := trace c @ [Select]\<rparr>)))"
  shows "post_equivalent_with others now data c =
     (Inl IntegrityError,
      (others (c\<lparr>trace := trace c @ [Select]\<rparr>))
        \<lparr>trace := trace (others (c\<lparr>trace := trace c @ [Select]\<rparr>)) @ [Insert]\<rparr>)"
proof -
  let ?c2 = "others (c\<lparr>trace := trace c @ [Select]\<rparr>)"
  have dup: "add_entry now data m h t row ?c2 = (Inl IntegrityError, ?c2\<lparr>trace := trace ?c2 @ [Insert]\<rparr>)"
    for row
    using assms(4,6) by (intro add_entry_duplicate) simp_all
  show ?thesis
  proof (cases "candidate m h t (rows c)")
    case None
    then show ?thesis
      by (simp add: post_equivalent_with_unfold [OF assms(1-3)] dup)
  next
    case (Some r)
    with candidate_exact [OF Some] assms(5) have "taskhash r \<noteq> t" by simp
    with Some show ?thesis
      by (simp add: post_equivalent_with_unfold [OF assms(1-3)] dup)
  qed
qed

theorem duplicate_insert_raises_witness:
  "\<not> list_ex (same_triple ''m'' ''h'' ''t'') (rows empty_db) \<and>
   list_ex (same_triple ''m'' ''h'' ''t'')
     (rows (serve (Post 15 (write_request ''m'' ''h'' ''t'' ''u1''))
        (empty_db\<lparr>trace := trace empty_db @ [Select]\<rparr>))) \<and>
   fst (post_equivalent_with (serve (Post 15 (write_request ''m'' ''h'' ''t'' ''u1''))) 20
     (write_request ''m'' ''h'' ''t'' ''u2'') empty_db) = Inl IntegrityError"
  using duplicate_insert_raises [of "write_request ''m'' ''h'' ''t'' ''u2''" "''m''" "''h''" "''t''"
      "''u2''" empty_db "serve (Post 15 (write_request ''m'' ''h'' ''t'' ''u1''))" 20]
  by (simp add: handler_defs)

text \<open>
  The claim as written fails: two requests for one new triple, the second served between
  the SELECT and the INSERT of the first, end with IntegrityError for the first.
\<close>

theorem duplicate_insert_counterexample:
  "post_equivalent_with (serve (Post 15 (write_request ''m'' ''h'' ''t'' ''u1''))) 20
     (write_request ''m'' ''h'' ''t'' ''u2'') empty_db =
   (Inl IntegrityError,
    \<lparr>rows = [\<lparr>row_id = 1, method = ''m'', outhash = ''h'', taskhash = ''t'', unihash = ''u1'',
       created = 15, owner = None, PN = None, PV = None, PR = None, task = None,
       outhash_siginfo = None\<rparr>],
     seq = 1, trace = [Select, Select, Insert, Commit, Insert]\<rparr>)"
  by (simp add: handler_defs)

section \<open>A lookup after a merge\<close>

text \<open>
  Claim C8, as the code has it. After a write request for (m, h, t, u) on a table that holds
  no row of method m and taskhash t, a read request for (m, t) answers with what the write
  request answered: its unihash is u when the table held no row of (m, h), and the unihash
  of the earliest created row of (m, h) otherwise.
\<close>

theorem merge_then_lookup:
  assumes "data ''method'' = Some m" "data ''outhash'' = Some h" "data ''taskhash'' = Some t"
    and "data ''unihash'' = Some u"
    and "query ''method'' = Some m" "query ''taskhash'' = Some t"
    and "\<not> list_ex (\<lambda>r. method r = m \<and> taskhash r = t) (rows c)"
  shows "\<exists>d c'. post_equivalent now data c = (Inr d, c') \<and>
           fst (get_equivalent query c') = Inr (Some d) \<and>
           (\<not> list_ex (in_class m h) (rows c) \<longrightarrow> d_unihash d = u) \<and>
           (\<forall>e. oldest m h (rows c) = Some e \<longrightarrow> d_unihash d = unihash e)"
proof -
  let ?p = "\<lambda>r. method r = m \<and> taskhash r = t"
  from assms(7) have nomatch: "filter ?p (rows c) = []"
    by (simp add: list_ex_iff filter_empty_conv)
  from assms(7) have fresh: "\<not> list_ex (same_triple m h t) (rows c)"
    by (auto simp: list_ex_iff same_triple_def)
  have look: "fst (get_equivalent query
        (c\<lparr>rows := rows c @ [new_row now data m h t u' c], seq := Suc (seq c),
          trace := trace c @ [Select, Insert, Commit]\<rparr>)) =
      Inr (Some \<lparr>d_taskhash = t, d_method = m, d_unihash = u'\<rparr>)" for u'
    by (simp add: get_equivalent_select [OF assms(5,6)] nomatch new_row_def fetchone_def
        project_def)
  show ?thesis
  proof (cases "oldest m h (rows c)")
    case None
    then have empty: "\<not> list_ex (in_class m h) (rows c)" by (simp add: oldest_None)
    from post_case_A [OF assms(1-4) empty, of now] look [of u] None show ?thesis by simp
  next
    case (Some e)
    then have "list_ex (in_class m h) (rows c)"
      using oldest_None [of m h "rows c"] by simp
    with post_case_B [OF assms(1-4) Some fresh, of now] look [of "unihash e"] Some
    show ?thesis by simp
  qed
qed

theorem merge_then_lookup_witness:
  "\<not> list_ex (\<lambda>r. method r = ''m'' \<and> taskhash r = ''t1'') (rows empty_db) \<and>
   \<not> list_ex (in_class ''m'' ''h'') (rows empty_db) \<and>
   fst (get_equivalent (read_query ''m'' ''t1'')
     (snd (post_equivalent 10 (write_request ''m'' ''h'' ''t1'' ''u1'') empty_db))) =
   Inr (Some \<lparr>d_taskhash = ''t1'', d_method = ''m'', d_unihash = ''u1''\<rparr>)"
  using merge_then_lookup [of "write_request ''m'' ''h'' ''t1'' ''u1''" "''m''" "''h''" "''t1''"
      "''u1''" "read_query ''m'' ''t1''" empty_db 10]
  by (simp add: handler_defs)

text \<open>
  The claim as written fails: when the outhash is already stored under another taskhash, the
  new row inherits that row's unihash, and the lookup answers with it and not with the
  request's.
\<close>

theorem merge_then_lookup_counterexample:
  "fst (get_equivalent (read_query ''m'' ''t1'')
     (snd (post_equivalent 20 (write_request ''m'' ''h'' ''t1'' ''u1'')
        (run [Post 10 (write_request ''m'' ''h'' ''t0'' ''u0'')] empty_db)))) =
   Inr (Some \<lparr>d_taskhash = ''t1'', d_method = ''m'', d_unihash = ''u0''\<rparr>)"
  by (simp add: handler_defs)

end
